theory Spec2Isabelle
  imports Complex_Main
begin

section \<open>Errors and Python list indexing\<close>

text \<open>
  The exceptions that the code of \<^verbatim>\<open>pyro/infer/abstract_infer.py\<close> can raise, as values.
  \<open>UnpackError\<close> stands for the failure of \<^verbatim>\<open>tr, logit, chain_id = vals\<close> on a value
  that is a bare trace (a \<^verbatim>\<open>ValueError\<close> or a \<^verbatim>\<open>TypeError\<close>, depending on how the trace
  type iterates, which this file does not fix).
\<close>

datatype error =
    IndexError
  | KeyError
  | ValueError
  | UnpackError
  | AssertionError
  | AttributeError
  | ZeroDivisionError
  | RuntimeError
  | TypeError
  | DifferentlyWeighted

text \<open>
  \<open>DifferentlyWeighted\<close> is the
  \<^verbatim>\<open>ValueError("Diagnostics not implemented for differently weighted samples.")\<close>
  of \<^verbatim>\<open>diagnostics\<close>, kept apart from the \<^verbatim>\<open>ValueError\<close> of a failed unpacking.
\<close>

text \<open>
  \<^verbatim>\<open>xs[i]\<close> on a Python list of length \<open>n\<close>: a negative index counts from the end, and
  an index outside \<open>[-n, n)\<close> raises \<^verbatim>\<open>IndexError\<close>.
\<close>

definition py_slot :: "nat \<Rightarrow> int \<Rightarrow> nat option" where
  "py_slot n i =
     (let j = (if i < 0 then i + int n else i)
      in if 0 \<le> j \<and> j < int n then Some (nat j) else None)"

definition getitem :: "'a list \<Rightarrow> int \<Rightarrow> error + 'a" where
  "getitem xs i = (case py_slot (length xs) i of None \<Rightarrow> Inl IndexError | Some k \<Rightarrow> Inr (xs ! k))"

section \<open>Tensors\<close>

text \<open>
  Modelled from the spec: the tensor library (\<^verbatim>\<open>torch\<close>) is not part of the repository.
  The spec asks of it that stacking \<open>k\<close> values of one shape \<open>S\<close> along a new leading axis
  gives a value of shape \<open>[k] + S\<close>, and that stacking values of differing shapes fails.
  A tensor is a scalar or a sequence of sub-tensors; \<^verbatim>\<open>torch.stack\<close> of an empty list
  fails as well. \<open>index_select t idxs\<close> is \<^verbatim>\<open>t[idxs]\<close> for a tensor of row numbers.
\<close>

datatype tensor = Scalar real | Tensor "tensor list"

fun shape :: "tensor \<Rightarrow> nat list" where
  "shape (Scalar x) = []"
| "shape (Tensor []) = [0]"
| "shape (Tensor (t # ts)) = Suc (length ts) # shape t"

definition stack :: "tensor list \<Rightarrow> error + tensor" where
  "stack ts =
     (case ts of
        [] \<Rightarrow> Inl RuntimeError
      | t # _ \<Rightarrow> if list_all (\<lambda>u. shape u = shape t) ts then Inr (Tensor ts) else Inl RuntimeError)"

fun index_select :: "tensor \<Rightarrow> nat list \<Rightarrow> error + tensor" where
  "index_select (Scalar x) idxs = Inl IndexError"
| "index_select (Tensor rows) idxs =
     (if list_all (\<lambda>i. i < length rows) idxs then Inr (Tensor (map (\<lambda>i. rows ! i) idxs))
      else Inl IndexError)"

section \<open>Execution records\<close>

text \<open>
  Modelled from the spec: the trace type (\<^verbatim>\<open>pyro.poutine.Trace\<close>) is not among the source
  files. The spec describes it as an ordered ledger of named sites, each tagged as latent
  or observed and holding a value, with the operations: list the node names, fetch a
  node's value, remove a node, copy the ledger, list the stochastic node names, list the
  observation node names. The reserved return-value pseudo-site is neither latent nor
  observed (\<open>Auxiliary\<close>). A ledger is a dictionary in insertion order: an association
  list in which no name occurs twice (\<open>wf_trace\<close>). On the contents of a ledger
  \<^verbatim>\<open>copy()\<close> is the identity; the objects themselves, and what a removal can reach, are
  made explicit in \<open>call_obj\<close> below.
\<close>

datatype site_kind = Latent | Observed | Auxiliary

record node =
  kind :: site_kind
  node_value :: tensor

type_synonym trace = "(string \<times> node) list"

definition wf_trace :: "trace \<Rightarrow> bool" where
  "wf_trace tr = distinct (map fst tr)"

definition observation_nodes :: "trace \<Rightarrow> string list" where
  "observation_nodes tr = map fst (filter (\<lambda>p. kind (snd p) = Observed) tr)"

definition stochastic_nodes :: "trace \<Rightarrow> string list" where
  "stochastic_nodes tr = map fst (filter (\<lambda>p. kind (snd p) = Latent) tr)"

definition remove_node :: "string \<Rightarrow> trace \<Rightarrow> trace" where
  "remove_node name tr = filter (\<lambda>p. fst p \<noteq> name) tr"

definition copy :: "trace \<Rightarrow> trace" where
  "copy tr = tr"

text \<open>\<^verbatim>\<open>tr.nodes[site]["value"]\<close>: a \<^verbatim>\<open>KeyError\<close> when the record has no such site.\<close>

definition site_value :: "trace \<Rightarrow> string \<Rightarrow> error + tensor" where
  "site_value tr site = (case map_of tr site of None \<Rightarrow> Inl KeyError | Some nd \<Rightarrow> Inr (node_value nd))"

section \<open>What a generation procedure yields\<close>

text \<open>
  A generation procedure (\<^verbatim>\<open>_traces\<close>) yields bare traces, \<^verbatim>\<open>(trace, weight)\<close> pairs or
  \<^verbatim>\<open>(trace, weight, chain_id)\<close> triples. \<open>sampler_default_args\<close> is the decorator of that
  name: it maps the sequence a wrapped procedure yields, value by value, testing
  \<^verbatim>\<open>isinstance(val, Trace)\<close> first and \<^verbatim>\<open>len(val) == 2\<close> second.
\<close>

datatype yielded =
    Bare trace
  | Pair trace real
  | Full trace real int

fun default_args :: "yielded \<Rightarrow> yielded" where
  "default_args (Bare tr) = Full tr 1.0 0"
| "default_args (Pair tr w) = Full tr w 0"
| "default_args (Full tr w c) = Full tr w c"

definition sampler_default_args :: "yielded list \<Rightarrow> yielded list" where
  "sampler_default_args trace_gen = map default_args trace_gen"

section \<open>The posterior sample store\<close>

record TracePosterior =
  num_chains :: int
  log_weights :: "real list"
  exec_traces :: "trace list"
  idxs_by_chain :: "nat list list"
  categorical :: "real list option"

text \<open>
  \<^verbatim>\<open>_reset\<close>: \<^verbatim>\<open>[[] for _ in range(self.num_chains)]\<close> is empty for a count below one.
\<close>

definition reset :: "TracePosterior \<Rightarrow> TracePosterior" where
  "reset s = s\<lparr>log_weights := [], exec_traces := [],
               idxs_by_chain := replicate (nat (num_chains s)) [], categorical := None\<rparr>"

definition init :: "int \<Rightarrow> TracePosterior" where
  "init n = reset \<lparr>num_chains = n, log_weights = [], exec_traces = [],
                   idxs_by_chain = [], categorical = None\<rparr>"

text \<open>
  The loop of \<^verbatim>\<open>run\<close> over \<^verbatim>\<open>enumerate(self._traces(...))\<close>, \<open>i\<close> the running index. Each
  value is unpacked as a triple; the trace and the weight are appended, and then the
  position is appended to \<^verbatim>\<open>self.idxs_by_chain[chain_id]\<close>, a Python list lookup. An
  exception ends the run: the model returns the exception alone.
\<close>

fun run_loop :: "TracePosterior \<Rightarrow> nat \<Rightarrow> yielded list \<Rightarrow> error + TracePosterior" where
  "run_loop s i [] = Inr s"
| "run_loop s i (Bare tr # rest) = Inl UnpackError"
| "run_loop s i (Pair tr logit # rest) = Inl ValueError"
| "run_loop s i (Full tr logit chain_id # rest) =
     (let s1 = s\<lparr>exec_traces := exec_traces s @ [tr]\<rparr>;
          s2 = s1\<lparr>log_weights := log_weights s1 @ [logit]\<rparr>
      in case py_slot (length (idxs_by_chain s2)) chain_id of
           None \<Rightarrow> Inl IndexError
         | Some k \<Rightarrow>
             run_loop (s2\<lparr>idxs_by_chain := (idxs_by_chain s2)[k := idxs_by_chain s2 ! k @ [i]]\<rparr>)
               (Suc i) rest)"

text \<open>
  \<^verbatim>\<open>run\<close>, given the values \<^verbatim>\<open>self._traces(*args, **kwargs)\<close> yields. The resampler
  (\<^verbatim>\<open>Categorical(logits=...)\<close>, an external primitive) is kept as its list of logits.
  The \<^verbatim>\<open>poutine.block()\<close> around the loop hides the procedure's sampling from an enclosing
  recorder; it changes nothing in the store and has no counterpart here.
\<close>

definition run :: "TracePosterior \<Rightarrow> yielded list \<Rightarrow> error + TracePosterior" where
  "run s vals =
     (case run_loop (reset s) 0 vals of
        Inl e \<Rightarrow> Inl e
      | Inr s' \<Rightarrow> Inr (s'\<lparr>categorical := Some (log_weights s')\<rparr>))"

text \<open>
  \<^verbatim>\<open>__call__\<close>, the draw. \<open>random_idx\<close> is the index \<^verbatim>\<open>self._categorical.sample().item()\<close>
  returned; before any run the resampler is \<^verbatim>\<open>None\<close> and the attribute lookup fails.
  Python's \<^verbatim>\<open>%\<close> and \<^verbatim>\<open>//\<close> on integers are \<open>mod\<close> and \<open>div\<close> on \<open>int\<close>. The store is
  returned with the record: the draw changes nothing in it.
\<close>

definition call :: "TracePosterior \<Rightarrow> nat \<Rightarrow> error + (trace \<times> TracePosterior)" where
  "call s random_idx =
     (case categorical s of
        None \<Rightarrow> Inl AttributeError
      | Some logits \<Rightarrow>
          if num_chains s = 0 then Inl ZeroDivisionError
          else
            (let chain_idx = int random_idx mod num_chains s;
                 sample_idx = int random_idx div num_chains s
             in case getitem (idxs_by_chain s) chain_idx of
                  Inl e \<Rightarrow> Inl e
                | Inr idxs \<Rightarrow>
                    (case getitem idxs sample_idx of
                       Inl e \<Rightarrow> Inl e
                     | Inr pos \<Rightarrow>
                         (case getitem (exec_traces s) (int pos) of
                            Inl e \<Rightarrow> Inl e
                          | Inr stored \<Rightarrow>
                              (let tr = copy stored
                               in Inr (fold remove_node (observation_nodes tr) tr, s))))))"

text \<open>
  The draw on objects. In the program the records are objects: \<^verbatim>\<open>self.exec_traces\<close> holds
  references to them, \<^verbatim>\<open>copy()\<close> makes a new object, and \<^verbatim>\<open>remove_node\<close> changes the
  object it is called on. (Modelled from the spec, as the trace type is: the ledger can be
  copied whole and a node removed from it.) The objects live in a heap, the address of an
  object being its position; a new object is put at the end. \<open>refs\<close> are the references
  that \<^verbatim>\<open>self.exec_traces\<close> holds, the chain lists and the resampler are those of the store
  \<open>s\<close>. \<open>call_obj\<close> is \<^verbatim>\<open>__call__\<close> once more, line by line, with the objects made explicit: it
  returns the reference of the record it hands back and the heap it leaves.
\<close>

definition copy_obj :: "trace list \<Rightarrow> nat \<Rightarrow> trace list \<times> nat" where
  "copy_obj h r = (h @ [copy (h ! r)], length h)"

definition remove_node_obj :: "string \<Rightarrow> nat \<Rightarrow> trace list \<Rightarrow> trace list" where
  "remove_node_obj name t h = h[t := remove_node name (h ! t)]"

definition call_obj :: "TracePosterior \<Rightarrow> trace list \<Rightarrow> nat list \<Rightarrow> nat \<Rightarrow> error + (nat \<times> trace list)" where
  "call_obj s h refs random_idx =
     (case categorical s of
        None \<Rightarrow> Inl AttributeError
      | Some logits \<Rightarrow>
          if num_chains s = 0 then Inl ZeroDivisionError
          else
            (let chain_idx = int random_idx mod num_chains s;
                 sample_idx = int random_idx div num_chains s
             in case getitem (idxs_by_chain s) chain_idx of
                  Inl e \<Rightarrow> Inl e
                | Inr idxs \<Rightarrow>
                    (case getitem idxs sample_idx of
                       Inl e \<Rightarrow> Inl e
                     | Inr pos \<Rightarrow>
                         (case getitem refs (int pos) of
                            Inl e \<Rightarrow> Inl e
                          | Inr stored \<Rightarrow>
                              (case copy_obj h stored of
                                 (h1, t) \<Rightarrow>
                                   Inr (t, fold (\<lambda>name. remove_node_obj name t)
                                             (observation_nodes (h1 ! t)) h1))))))"

section \<open>The empirical marginal\<close>

text \<open>
  Modelled from the spec: the weighted empirical collection (\<^verbatim>\<open>pyro.distributions.Empirical\<close>)
  is not among the source files. The spec asks of it: add a weighted sample, and get all
  samples and weights. It is kept as the two buffers; getting the samples stacks them
  into one tensor, one row per sample.
\<close>

record Empirical =
  samples_buffer :: "tensor list"
  weights_buffer :: "real list"

definition empty_Empirical :: Empirical where
  "empty_Empirical = \<lparr>samples_buffer = [], weights_buffer = []\<rparr>"

definition add :: "tensor \<Rightarrow> real \<Rightarrow> Empirical \<Rightarrow> Empirical" where
  "add v log_weight e =
     e\<lparr>samples_buffer := samples_buffer e @ [v], weights_buffer := weights_buffer e @ [log_weight]\<rparr>"

definition get_samples_and_weights :: "Empirical \<Rightarrow> error + (tensor \<times> real list)" where
  "get_samples_and_weights e =
     (case stack (samples_buffer e) of Inl err \<Rightarrow> Inl err | Inr t \<Rightarrow> Inr (t, weights_buffer e))"

text \<open>
  The site selector of \<^verbatim>\<open>EmpiricalMarginal\<close>: a string or a list of strings
  (\<^verbatim>\<open>assert isinstance(sites, (list, str))\<close>).
\<close>

datatype selector = Site string | Sites "string list"

text \<open>A list comprehension over fallible lookups: the first failure is the one raised.\<close>

fun collect :: "(error + 'a) list \<Rightarrow> error + 'a list" where
  "collect [] = Inr []"
| "collect (Inl e # rest) = Inl e"
| "collect (Inr x # rest) = (case collect rest of Inl e \<Rightarrow> Inl e | Inr xs \<Rightarrow> Inr (x # xs))"

text \<open>
  The value \<^verbatim>\<open>_populate_traces\<close> computes for one record:
  \<^verbatim>\<open>tr.nodes[sites]["value"]\<close> for a string, and
  \<^verbatim>\<open>torch.stack([tr.nodes[site]["value"] for site in sites], 0)\<close> for a list.
\<close>

fun selected_value :: "trace \<Rightarrow> selector \<Rightarrow> error + tensor" where
  "selected_value tr (Site name) = site_value tr name"
| "selected_value tr (Sites names) =
     (case collect (map (site_value tr) names) of Inl e \<Rightarrow> Inl e | Inr vs \<Rightarrow> stack vs)"

fun populate_loop :: "Empirical \<Rightarrow> (trace \<times> real) list \<Rightarrow> selector \<Rightarrow> error + Empirical" where
  "populate_loop e [] sites = Inr e"
| "populate_loop e ((tr, log_weight) # rest) sites =
     (case selected_value tr sites of
        Inl err \<Rightarrow> Inl err
      | Inr v \<Rightarrow> populate_loop (add v log_weight e) rest sites)"

definition populate_traces :: "Empirical \<Rightarrow> TracePosterior \<Rightarrow> selector \<Rightarrow> error + Empirical" where
  "populate_traces e trace_posterior sites =
     populate_loop e (zip (exec_traces trace_posterior) (log_weights trace_posterior)) sites"

text \<open>\<^verbatim>\<open>EmpiricalMarginal(trace_posterior, sites)\<close>; no selector means the return-value site.\<close>

definition EmpiricalMarginal :: "TracePosterior \<Rightarrow> selector option \<Rightarrow> error + Empirical" where
  "EmpiricalMarginal trace_posterior sites =
     populate_traces empty_Empirical trace_posterior
       (case sites of None \<Rightarrow> Site ''_RETURN'' | Some sel \<Rightarrow> sel)"

section \<open>Diagnostics\<close>

text \<open>
  The per-chain samples of \<^verbatim>\<open>diagnostics\<close>: \<^verbatim>\<open>marginal[sample_idxs]\<close> for the index list of
  each chain, in the order of the chains.
\<close>

fun chain_samples :: "tensor \<Rightarrow> nat list list \<Rightarrow> error + tensor list" where
  "chain_samples marginal [] = Inr []"
| "chain_samples marginal (idxs # rest) =
     (case index_select marginal idxs of
        Inl e \<Rightarrow> Inl e
      | Inr t \<Rightarrow> (case chain_samples marginal rest of Inl e \<Rightarrow> Inl e | Inr ts \<Rightarrow> Inr (t # ts)))"

text \<open>
  The loop over the sites. \<open>n_eff\<close> and \<open>r_hat\<close> are the statistics primitives
  (\<^verbatim>\<open>stats.effective_sample_size\<close>, \<^verbatim>\<open>stats.split_gelman_rubin\<close>), parameters here. The
  result dictionary is a map from site names. \<^verbatim>\<open>weights.max()\<close> of an empty tensor
  raises.
\<close>

fun diagnostics_loop ::
  "(tensor \<Rightarrow> 'd) \<Rightarrow> (tensor \<Rightarrow> 'd) \<Rightarrow> TracePosterior \<Rightarrow> (string \<rightharpoonup> 'd \<times> 'd) \<Rightarrow> string list
     \<Rightarrow> error + (string \<rightharpoonup> 'd \<times> 'd)" where
  "diagnostics_loop n_eff r_hat s acc [] = Inr acc"
| "diagnostics_loop n_eff r_hat s acc (site # rest) =
     (case EmpiricalMarginal s (Some (Site site)) of
        Inl e \<Rightarrow> Inl e
      | Inr m \<Rightarrow>
          (case get_samples_and_weights m of
             Inl e \<Rightarrow> Inl e
           | Inr (marginal, weights) \<Rightarrow>
               if weights = [] then Inl RuntimeError
               else if Max (set weights) \<noteq> Min (set weights) then Inl DifferentlyWeighted
               else
                 (case chain_samples marginal (idxs_by_chain s) of
                    Inl e \<Rightarrow> Inl e
                  | Inr cs \<Rightarrow>
                      (case stack cs of
                         Inl e \<Rightarrow> Inl e
                       | Inr stacked \<Rightarrow>
                           diagnostics_loop n_eff r_hat s
                             (acc(site \<mapsto> (n_eff stacked, r_hat stacked))) rest))))"

text \<open>
  The accessors of a trace are properties: \<^verbatim>\<open>__call__\<close> iterates
  \<^verbatim>\<open>trace.observation_nodes\<close> without calling it, and \<^verbatim>\<open>stochastic_nodes\<close> is its sibling.
  \<^verbatim>\<open>self.exec_traces[0].stochastic_nodes()\<close> in \<^verbatim>\<open>diagnostics\<close> therefore calls the list the
  property gives, and calling a list raises \<^verbatim>\<open>TypeError\<close>: with the sites omitted,
  \<^verbatim>\<open>diagnostics\<close> fails its assertion on an empty store and raises on any other.
\<close>

definition call_a_list :: "string list \<Rightarrow> error + string list" where
  "call_a_list names = Inl TypeError"

definition diagnostics ::
  "(tensor \<Rightarrow> 'd) \<Rightarrow> (tensor \<Rightarrow> 'd) \<Rightarrow> TracePosterior \<Rightarrow> string list option
     \<Rightarrow> error + (string \<rightharpoonup> 'd \<times> 'd)" where
  "diagnostics n_eff r_hat s sites =
     (case (case sites of
              None \<Rightarrow>
                if length (exec_traces s) > 0 then call_a_list (stochastic_nodes (exec_traces s ! 0))
                else Inl AssertionError
            | Some given \<Rightarrow> Inr given) of
        Inl e \<Rightarrow> Inl e
      | Inr sites' \<Rightarrow>
          if num_chains s = 1 then Inr Map.empty
          else diagnostics_loop n_eff r_hat s Map.empty sites')"

section \<open>The posterior-predictive generator\<close>





section \<open>Auxiliary notions for the statements\<close>

text \<open>
  The chain under which \<open>run_loop\<close> files a value when the store has \<open>n\<close> chains, the
  trace and the weight a value carries, and the positions (counted from \<open>i\<close>) of the
  values of a sequence filed under chain \<open>k\<close>.
\<close>

fun chain_of :: "nat \<Rightarrow> yielded \<Rightarrow> nat option" where
  "chain_of n (Bare tr) = None"
| "chain_of n (Pair tr w) = None"
| "chain_of n (Full tr w c) = py_slot n c"

fun trace_of :: "yielded \<Rightarrow> trace" where
  "trace_of (Bare tr) = tr"
| "trace_of (Pair tr w) = tr"
| "trace_of (Full tr w c) = tr"

fun weight_of :: "yielded \<Rightarrow> real" where
  "weight_of (Bare tr) = 1.0"
| "weight_of (Pair tr w) = w"
| "weight_of (Full tr w c) = w"

fun positions :: "nat \<Rightarrow> nat \<Rightarrow> nat \<Rightarrow> yielded list \<Rightarrow> nat list" where
  "positions n k i [] = []"
| "positions n k i (v # vs) =
     (if chain_of n v = Some k then [i] else []) @ positions n k (Suc i) vs"

section \<open>Facts about the run loop\<close>

lemma py_slot_nonneg: "0 \<le> i \<Longrightarrow> py_slot n i = (if i < int n then Some (nat i) else None)"
  by (simp add: py_slot_def)

lemma py_slot_less: "py_slot n c = Some k \<Longrightarrow> k < n"
  by (auto simp: py_slot_def Let_def split: if_splits)

lemma run_loop_fields:
  "run_loop s i vals = Inr s' \<Longrightarrow>
     exec_traces s' = exec_traces s @ map trace_of vals \<and>
     log_weights s' = log_weights s @ map weight_of vals \<and>
     num_chains s' = num_chains s \<and> categorical s' = categorical s \<and>
     length (idxs_by_chain s') = length (idxs_by_chain s)"
proof (induction s i vals rule: run_loop.induct)
  case (4 s i tr logit chain_id rest)
  then show ?case
    by (auto simp: Let_def split: option.splits)
qed auto

lemma run_loop_idxs:
  "run_loop s i vals = Inr s' \<Longrightarrow> k < length (idxs_by_chain s) \<Longrightarrow>
     idxs_by_chain s' ! k = idxs_by_chain s ! k @ positions (length (idxs_by_chain s)) k i vals"
proof (induction s i vals rule: run_loop.induct)
  case (4 s i tr logit chain_id rest)
  then show ?case
    by (auto simp: Let_def nth_list_update dest: py_slot_less split: option.splits)
qed auto

lemma run_loop_defined:
  "run_loop s i vals = Inr s' \<Longrightarrow> v \<in> set vals \<Longrightarrow> chain_of (length (idxs_by_chain s)) v \<noteq> None"
proof (induction s i vals rule: run_loop.induct)
  case (4 s i tr logit chain_id rest)
  then show ?case
    by (auto simp: Let_def split: option.splits)
qed auto

lemma run_loop_total:
  "\<forall>v \<in> set vals. chain_of (length (idxs_by_chain s)) v \<noteq> None \<Longrightarrow> \<exists>s'. run_loop s i vals = Inr s'"
proof (induction s i vals rule: run_loop.induct)
  case (4 s i tr logit chain_id rest)
  then show ?case
    by (auto simp: Let_def split: option.splits)
qed auto

lemma positions_mem:
  "p \<in> set (positions n k i vals) \<longleftrightarrow> i \<le> p \<and> p - i < length vals \<and> chain_of n (vals ! (p - i)) = Some k"
proof (induction vals arbitrary: i)
  case (Cons v vs)
  show ?case
  proof (cases "p = i")
    case True then show ?thesis using Cons[of "Suc i"] by auto
  next
    case False
    then show ?thesis using Cons[of "Suc i"]
      by (auto simp: nth_Cons' Suc_diff_le less_Suc_eq_le split: if_splits)
  qed
qed simp

lemma positions_sorted: "sorted_wrt (<) (positions n k i vals)"
  by (induction vals arbitrary: i) (auto simp: sorted_wrt_append positions_mem)


lemma positions_length_sum:
  "\<forall>v \<in> set vals. chain_of n v \<noteq> None \<Longrightarrow>
     sum_list (map (\<lambda>k. length (positions n k i vals)) [0..<n]) = length vals"
proof (induction vals arbitrary: i)
  case (Cons v vs)
  from Cons.prems obtain k0 where k0: "chain_of n v = Some k0" by auto
  then have "k0 < n" by (cases v) (auto dest: py_slot_less)
  then have one: "sum_list (map (\<lambda>k. if k0 = k then 1 else 0) [0..<n]) = (1::nat)"
    by (simp add: sum_list_distinct_conv_sum_set)
  have "sum_list (map (\<lambda>k. length (positions n k i (v # vs))) [0..<n])
      = sum_list (map (\<lambda>k. (if k0 = k then 1 else 0) + length (positions n k (Suc i) vs)) [0..<n])"
    by (rule arg_cong[where f = sum_list], rule map_cong) (auto simp: k0)
  also have "\<dots> = 1 + length vs"
    using Cons.IH[of "Suc i"] Cons.prems one by (simp add: sum_list_addf)
  finally show ?case by simp
qed simp

section \<open>Facts about a run\<close>

lemma reset_fields:
  "exec_traces (reset s) = []" "log_weights (reset s) = []" "num_chains (reset s) = num_chains s"
  "idxs_by_chain (reset s) = replicate (nat (num_chains s)) []" "categorical (reset s) = None"
  by (simp_all add: reset_def)

lemma run_Inr:
  "run s vals = Inr s' \<Longrightarrow> \<exists>t. run_loop (reset s) 0 vals = Inr t \<and> s' = t\<lparr>categorical := Some (log_weights t)\<rparr>"
  by (auto simp: run_def split: sum.splits)

lemma run_exec_traces: "run s vals = Inr s' \<Longrightarrow> exec_traces s' = map trace_of vals"
  by (auto dest!: run_Inr dest: run_loop_fields simp: reset_fields)

lemma run_log_weights: "run s vals = Inr s' \<Longrightarrow> log_weights s' = map weight_of vals"
  by (auto dest!: run_Inr dest: run_loop_fields simp: reset_fields)

lemma run_num_chains: "run s vals = Inr s' \<Longrightarrow> num_chains s' = num_chains s"
  by (auto dest!: run_Inr dest: run_loop_fields simp: reset_fields)

lemma run_categorical: "run s vals = Inr s' \<Longrightarrow> categorical s' = Some (map weight_of vals)"
  by (auto dest!: run_Inr dest: run_loop_fields simp: reset_fields)

lemma run_length_idxs: "run s vals = Inr s' \<Longrightarrow> length (idxs_by_chain s') = nat (num_chains s)"
  by (auto dest!: run_Inr dest: run_loop_fields simp: reset_fields)

lemma run_idxs:
  "run s vals = Inr s' \<Longrightarrow> k < nat (num_chains s) \<Longrightarrow>
     idxs_by_chain s' ! k = positions (nat (num_chains s)) k 0 vals"
  by (auto dest!: run_Inr dest: run_loop_idxs[where k = k] simp: reset_fields)

lemma run_defined:
  "run s vals = Inr s' \<Longrightarrow> v \<in> set vals \<Longrightarrow> chain_of (nat (num_chains s)) v \<noteq> None"
  by (auto dest!: run_Inr dest: run_loop_defined simp: reset_fields)

lemma run_total:
  "\<forall>v \<in> set vals. chain_of (nat (num_chains s)) v \<noteq> None \<Longrightarrow> \<exists>s'. run s vals = Inr s'"
  using run_loop_total[of vals "reset s" 0] by (auto simp: run_def reset_fields)

lemma chain_of_less: "chain_of n v = Some k \<Longrightarrow> k < n"
  by (cases v) (auto dest: py_slot_less)

lemma run_sum_lengths:
  assumes "run s vals = Inr s'"
  shows "sum_list (map length (idxs_by_chain s')) = length vals"
proof -
  let ?n = "nat (num_chains s)"
  have "idxs_by_chain s' = map (\<lambda>k. positions ?n k 0 vals) [0..<?n]"
    using assms by (auto intro!: nth_equalityI simp: run_length_idxs run_idxs)
  then have "map length (idxs_by_chain s') = map (\<lambda>k. length (positions ?n k 0 vals)) [0..<?n]"
    by simp
  moreover have "\<forall>v \<in> set vals. chain_of ?n v \<noteq> None"
    using assms run_defined by blast
  ultimately show ?thesis
    by (simp add: positions_length_sum)
qed

lemma run_position_unique:
  assumes "run s vals = Inr s'" and "p < length vals"
  shows "\<exists>!c. c < length (idxs_by_chain s') \<and> p \<in> set (idxs_by_chain s' ! c)"
proof -
  let ?n = "nat (num_chains s)"
  from assms have "chain_of ?n (vals ! p) \<noteq> None"
    using run_defined nth_mem by blast
  then obtain k where k: "chain_of ?n (vals ! p) = Some k" by auto
  then have kn: "k < ?n" by (rule chain_of_less)
  have len: "length (idxs_by_chain s') = ?n" using assms(1) by (rule run_length_idxs)
  have mem: "\<And>c. c < ?n \<Longrightarrow> p \<in> set (idxs_by_chain s' ! c) \<longleftrightarrow> c = k"
    using assms k by (auto simp: run_idxs positions_mem)
  show ?thesis
  proof (rule ex1I[of _ k])
    show "k < length (idxs_by_chain s') \<and> p \<in> set (idxs_by_chain s' ! k)"
      using kn len mem by simp
  next
    fix c assume "c < length (idxs_by_chain s') \<and> p \<in> set (idxs_by_chain s' ! c)"
    then show "c = k" using len mem[of c] by auto
  qed
qed

lemma run_chain_sorted:
  "run s vals = Inr s' \<Longrightarrow> c < length (idxs_by_chain s') \<Longrightarrow> sorted_wrt (<) (idxs_by_chain s' ! c)"
  by (simp add: run_length_idxs run_idxs positions_sorted)

lemma run_chain_bound:
  "run s vals = Inr s' \<Longrightarrow> c < length (idxs_by_chain s') \<Longrightarrow> p \<in> set (idxs_by_chain s' ! c) \<Longrightarrow> p < length vals"
  by (simp add: run_length_idxs run_idxs positions_mem)

lemma sorted_wrt_less_distinct: "sorted_wrt (<) (xs :: nat list) \<Longrightarrow> distinct xs"
  by (induction xs) auto

section \<open>Facts about the marginal and the per-chain samples\<close>

lemma populate_loop_Inr:
  "populate_loop e zs sel = Inr m \<Longrightarrow>
     \<exists>vs. samples_buffer m = samples_buffer e @ vs \<and>
          map Inr vs = map (\<lambda>z. selected_value (fst z) sel) zs \<and>
          weights_buffer m = weights_buffer e @ map snd zs"
proof (induction e zs sel rule: populate_loop.induct)
  case (2 e tr log_weight rest sites)
  then show ?case
    by (auto simp: add_def split: sum.splits)
qed simp

lemma EmpiricalMarginal_Inr:
  assumes "EmpiricalMarginal tp (Some sel) = Inr m"
  shows "map Inr (samples_buffer m) = map (\<lambda>z. selected_value (fst z) sel) (zip (exec_traces tp) (log_weights tp))"
    and "weights_buffer m = map snd (zip (exec_traces tp) (log_weights tp))"
  using populate_loop_Inr[of empty_Empirical "zip (exec_traces tp) (log_weights tp)" sel m] assms
  by (auto simp: EmpiricalMarginal_def populate_traces_def empty_Empirical_def)

lemma get_samples_and_weights_Inr:
  "get_samples_and_weights m = Inr (marginal, ws) \<Longrightarrow>
     marginal = Tensor (samples_buffer m) \<and> ws = weights_buffer m \<and> samples_buffer m \<noteq> []"
  by (auto simp: get_samples_and_weights_def stack_def split: sum.splits list.splits if_splits)



section \<open>Facts about the draw\<close>

lemma getitem_nat: "k < length xs \<Longrightarrow> getitem xs (int k) = Inr (xs ! k)"
  by (simp add: getitem_def py_slot_nonneg)

lemma getitem_Inr_mem: "getitem xs i = Inr x \<Longrightarrow> x \<in> set xs"
  by (auto simp: getitem_def dest: py_slot_less split: option.splits)

lemma fold_remove_node:
  "fold remove_node names tr = filter (\<lambda>p. fst p \<notin> set names) tr"
  by (induction names arbitrary: tr) (auto simp: remove_node_def intro: filter_cong)

lemma observed_name_iff:
  assumes "wf_trace tr" and "p \<in> set tr"
  shows "fst p \<in> set (observation_nodes tr) \<longleftrightarrow> kind (snd p) = Observed"
proof
  assume "fst p \<in> set (observation_nodes tr)"
  then obtain q where q: "q \<in> set tr" "kind (snd q) = Observed" "fst q = fst p"
    by (auto simp: observation_nodes_def)
  with assms have "q = p"
    by (auto simp: wf_trace_def distinct_map inj_on_def)
  with q show "kind (snd p) = Observed" by simp
next
  assume "kind (snd p) = Observed"
  with assms(2) show "fst p \<in> set (observation_nodes tr)"
    by (auto simp: observation_nodes_def)
qed

lemma prune_filter:
  "wf_trace tr \<Longrightarrow>
     fold remove_node (observation_nodes tr) tr = filter (\<lambda>p. kind (snd p) \<noteq> Observed) tr"
  unfolding fold_remove_node
  by (rule filter_cong) (auto simp: observed_name_iff)

lemma call_Inr:
  assumes "call s g = Inr (tr', s')"
  shows "\<exists>stored \<in> set (exec_traces s).
           tr' = fold remove_node (observation_nodes stored) stored \<and> s' = s"
  using assms
  by (auto simp: call_def Let_def copy_def split: option.splits sum.splits if_splits
           dest: getitem_Inr_mem)

lemma getitem_beyond: "length xs \<le> k \<Longrightarrow> getitem xs (int k) = Inl IndexError"
  by (simp add: getitem_def py_slot_nonneg)

lemma map_of_filter_keep:
  assumes "distinct (map fst xs)" and "(k, v) \<in> set xs" and "P (k, v)"
  shows "map_of (filter P xs) k = map_of xs k"
proof -
  have "distinct (map fst (filter P xs))" using assms(1) by (rule distinct_map_filter)
  moreover have "(k, v) \<in> set (filter P xs)" using assms by simp
  ultimately have "map_of (filter P xs) k = Some v" by simp
  moreover have "map_of xs k = Some v" using assms by simp
  ultimately show ?thesis by simp
qed

lemma call_at_entry:
  assumes r: "run s0 vals = Inr s"
    and g: "g < length (log_weights s)"
    and within: "g div nat (num_chains s) < length (idxs_by_chain s ! (g mod nat (num_chains s)))"
  shows "\<exists>pos stored.
           pos = idxs_by_chain s ! (g mod nat (num_chains s)) ! (g div nat (num_chains s)) \<and>
           pos < length (exec_traces s) \<and> stored = exec_traces s ! pos \<and>
           call s g = Inr (fold remove_node (observation_nodes stored) stored, s)"
proof -
  let ?n = "nat (num_chains s)"
  let ?chain = "g mod ?n" and ?within = "g div ?n"
  have nc: "num_chains s = num_chains s0" using r by (rule run_num_chains)
  have lw: "length (log_weights s) = length vals" using r by (simp add: run_log_weights)
  with g obtain v where "v \<in> set vals" by (cases vals) auto
  then have "chain_of (nat (num_chains s0)) v \<noteq> None" using r run_defined by blast
  then have pos_n: "0 < ?n" using nc by (auto dest: chain_of_less)
  then have nz: "num_chains s \<noteq> 0" and npos: "0 < num_chains s" by auto
  have len: "length (idxs_by_chain s) = ?n" using r nc by (simp add: run_length_idxs)
  have cat: "categorical s = Some (map weight_of vals)" using r by (rule run_categorical)
  have m: "int g mod num_chains s = int ?chain" and d: "int g div num_chains s = int ?within"
    using npos by (simp_all add: zmod_int zdiv_int)
  have chain_lt: "?chain < length (idxs_by_chain s)" using pos_n len by simp
  let ?idxs = "idxs_by_chain s ! ?chain"
  let ?pos = "?idxs ! ?within"
  have "?pos \<in> set ?idxs" using within by simp
  then have pos_lt: "?pos < length (exec_traces s)"
    using r chain_lt run_chain_bound by (simp add: run_exec_traces)
  have "call s g = Inr (fold remove_node (observation_nodes (exec_traces s ! ?pos)) (exec_traces s ! ?pos), s)"
    using cat nz chain_lt within pos_lt
    by (simp add: call_def m d getitem_nat copy_def Let_def)
  with pos_lt show ?thesis by blast
qed

section \<open>Facts about the values a run accepts\<close>

lemma run_loop_append:
  "run_loop s i (pre @ rest) =
     (case run_loop s i pre of Inl e \<Rightarrow> Inl e | Inr t \<Rightarrow> run_loop t (i + length pre) rest)"
proof (induction pre arbitrary: s i)
  case Nil
  show ?case by simp
next
  case (Cons v pre)
  show ?case
    by (cases v) (auto simp: Let_def Cons.IH split: option.splits sum.splits)
qed

lemma run_mem_chain:
  assumes "run s vals = Inr s'" and "i < length vals"
    and "chain_of (nat (num_chains s)) (vals ! i) = Some k"
  shows "i \<in> set (idxs_by_chain s' ! k)"
proof -
  have "k < nat (num_chains s)" using assms(3) by (rule chain_of_less)
  then show ?thesis using assms by (simp add: run_idxs positions_mem)
qed

lemma trace_of_default_args: "trace_of (default_args v) = trace_of v"
  by (cases v) simp_all

lemma weight_of_default_args: "weight_of (default_args v) = weight_of v"
  by (cases v) simp_all

section \<open>Facts about populating a marginal\<close>







lemma EmpiricalMarginal_weights_nonempty:
  assumes "EmpiricalMarginal s (Some sel) = Inr m"
    and "get_samples_and_weights m = Inr (marginal, weights)"
  shows "weights \<noteq> []"
proof -
  let ?zs = "zip (exec_traces s) (log_weights s)"
  have "length (samples_buffer m) = length ?zs"
    using EmpiricalMarginal_Inr(1)[OF assms(1)] by (metis length_map)
  moreover have "samples_buffer m \<noteq> []" and "weights = weights_buffer m"
    using assms(2) by (simp_all add: get_samples_and_weights_Inr)
  moreover have "length (weights_buffer m) = length ?zs"
    using EmpiricalMarginal_Inr(2)[OF assms(1)] by simp
  ultimately show ?thesis by auto
qed








section \<open>Facts about the predictive loop\<close>



section \<open>Facts about the draw on objects\<close>

lemma fold_remove_node_obj:
  "t < length h \<Longrightarrow>
     fold (\<lambda>name. remove_node_obj name t) names h = h[t := fold remove_node names (h ! t)]"
proof (induction names arbitrary: h)
  case Nil
  show ?case by simp
next
  case (Cons name names)
  then show ?case by (simp add: remove_node_obj_def)
qed

lemma call_obj_ready:
  assumes r: "run s0 vals = Inr s"
    and g: "g < length (log_weights s)"
    and len: "length refs = length (exec_traces s)"
  shows "call_obj s h refs g =
           (if g div nat (num_chains s) < length (idxs_by_chain s ! (g mod nat (num_chains s)))
            then Inr (length h,
                      h @ [fold remove_node
                             (observation_nodes
                                (h ! (refs ! (idxs_by_chain s ! (g mod nat (num_chains s)) !
                                               (g div nat (num_chains s))))))
                             (h ! (refs ! (idxs_by_chain s ! (g mod nat (num_chains s)) !
                                            (g div nat (num_chains s)))))])
            else Inl IndexError)"
proof -
  let ?n = "nat (num_chains s)"
  have nc: "num_chains s = num_chains s0" using r by (rule run_num_chains)
  have lw: "length (log_weights s) = length vals" using r by (simp add: run_log_weights)
  with g obtain v where "v \<in> set vals" by (cases vals) auto
  then have "chain_of (nat (num_chains s0)) v \<noteq> None" using r run_defined by blast
  then have pos_n: "0 < ?n" using nc by (auto dest: chain_of_less)
  then have nz: "num_chains s \<noteq> 0" and npos: "0 < num_chains s" by auto
  have leni: "length (idxs_by_chain s) = ?n" using r nc by (simp add: run_length_idxs)
  have cat: "categorical s = Some (map weight_of vals)" using r by (rule run_categorical)
  have m: "int g mod num_chains s = int (g mod ?n)" and d: "int g div num_chains s = int (g div ?n)"
    using npos by (simp_all add: zmod_int zdiv_int)
  have chain_lt: "g mod ?n < length (idxs_by_chain s)" using pos_n leni by simp
  show ?thesis
  proof (cases "g div ?n < length (idxs_by_chain s ! (g mod ?n))")
    case True
    let ?pos = "idxs_by_chain s ! (g mod ?n) ! (g div ?n)"
    have "?pos \<in> set (idxs_by_chain s ! (g mod ?n))" using True by simp
    then have "?pos < length (exec_traces s)"
      using r chain_lt run_chain_bound by (simp add: run_exec_traces)
    then have pos_lt: "?pos < length refs" using len by simp
    have "fold (\<lambda>name. remove_node_obj name (length h))
            (observation_nodes (h ! (refs ! ?pos))) (h @ [h ! (refs ! ?pos)])
          = h @ [fold remove_node (observation_nodes (h ! (refs ! ?pos))) (h ! (refs ! ?pos))]"
      by (simp add: fold_remove_node_obj)
    then show ?thesis
      using cat nz chain_lt True pos_lt
      by (simp add: call_obj_def m d getitem_nat copy_obj_def copy_def Let_def)
  next
    case False
    then show ?thesis
      using cat nz chain_lt
      by (simp add: call_obj_def m d getitem_nat getitem_beyond Let_def)
  qed
qed

lemma pruned_trace:
  assumes w: "wf_trace stored"
    and f: "tr' = fold remove_node (observation_nodes stored) stored"
  shows "tr' = filter (\<lambda>p. kind (snd p) \<noteq> Observed) stored"
    and "set (map fst tr') \<inter> set (observation_nodes stored) = {}"
    and "observation_nodes tr' = []"
    and "stochastic_nodes tr' = stochastic_nodes stored"
    and "\<forall>name \<in> set (stochastic_nodes stored). map_of tr' name = map_of stored name"
proof -
  show f': "tr' = filter (\<lambda>p. kind (snd p) \<noteq> Observed) stored"
    using f w by (simp add: prune_filter)
  show "set (map fst tr') \<inter> set (observation_nodes stored) = {}"
  proof -
    have "fst p \<notin> set (observation_nodes stored)" if "p \<in> set tr'" for p
      using that f' w observed_name_iff[of stored p] by simp
    then show ?thesis by auto
  qed
  show "observation_nodes tr' = []"
    by (simp add: f' observation_nodes_def)
  show "stochastic_nodes tr' = stochastic_nodes stored"
    unfolding f' stochastic_nodes_def
    by (simp add: filter_filter) (metis (mono_tags, lifting) filter_cong site_kind.distinct(1))
  show "\<forall>name \<in> set (stochastic_nodes stored). map_of tr' name = map_of stored name"
  proof
    fix name assume "name \<in> set (stochastic_nodes stored)"
    then obtain nd where "(name, nd) \<in> set stored" "kind nd = Latent"
      by (auto simp: stochastic_nodes_def)
    then show "map_of tr' name = map_of stored name"
      unfolding f' using w by (intro map_of_filter_keep[where v = nd]) (auto simp: wf_trace_def)
  qed
qed

section \<open>Facts about the values a marginal stacks\<close>





section \<open>The claims\<close>

text \<open>
  C1 (amended). For a store left by a successful run and an index \<open>g\<close> drawn over its
  log-weights, the draw splits \<open>g\<close> into \<open>chain = g mod num_chains\<close> and
  \<open>within = g div num_chains\<close>. When the index list of that chain has an entry at
  \<open>within\<close>, the entry is a position of the samples sequence and the draw returns the
  record stored there, with its observation nodes removed, and leaves the store as it
  was; when the list has no such entry, the draw raises \<^verbatim>\<open>IndexError\<close>.
\<close>

theorem call_selects:
  assumes r: "run s0 vals = Inr s"
    and g: "g < length (log_weights s)"
  shows "call s g =
           (if g div nat (num_chains s) < length (idxs_by_chain s ! (g mod nat (num_chains s)))
            then Inr (fold remove_node
                        (observation_nodes
                           (exec_traces s !
                              (idxs_by_chain s ! (g mod nat (num_chains s)) ! (g div nat (num_chains s)))))
                        (exec_traces s !
                           (idxs_by_chain s ! (g mod nat (num_chains s)) ! (g div nat (num_chains s)))),
                      s)
            else Inl IndexError) \<and>
         (g div nat (num_chains s) < length (idxs_by_chain s ! (g mod nat (num_chains s))) \<longrightarrow>
            idxs_by_chain s ! (g mod nat (num_chains s)) ! (g div nat (num_chains s))
              < length (exec_traces s))"
proof (cases "g div nat (num_chains s) < length (idxs_by_chain s ! (g mod nat (num_chains s)))")
  case True
  from call_at_entry [OF r g True] show ?thesis using True by auto
next
  case False
  let ?n = "nat (num_chains s)"
  have nc: "num_chains s = num_chains s0" using r by (rule run_num_chains)
  have lw: "length (log_weights s) = length vals" using r by (simp add: run_log_weights)
  with g obtain v where "v \<in> set vals" by (cases vals) auto
  then have "chain_of (nat (num_chains s0)) v \<noteq> None" using r run_defined by blast
  then have pos_n: "0 < ?n" using nc by (auto dest: chain_of_less)
  then have nz: "num_chains s \<noteq> 0" and npos: "0 < num_chains s" by auto
  have len: "length (idxs_by_chain s) = ?n" using r nc by (simp add: run_length_idxs)
  have cat: "categorical s = Some (map weight_of vals)" using r by (rule run_categorical)
  have m: "int g mod num_chains s = int (g mod ?n)" and d: "int g div num_chains s = int (g div ?n)"
    using npos by (simp_all add: zmod_int zdiv_int)
  have chain_lt: "g mod ?n < length (idxs_by_chain s)" using pos_n len by simp
  show ?thesis
    using cat nz chain_lt False
    by (simp add: call_def m d getitem_nat getitem_beyond Let_def)
qed

theorem call_selects_witness:
  "call \<lparr>num_chains = 2, log_weights = [0, 0],
          exec_traces = [[(''z'', \<lparr>kind = Latent, node_value = Scalar 1\<rparr>)],
                         [(''z'', \<lparr>kind = Latent, node_value = Scalar 2\<rparr>),
                          (''x'', \<lparr>kind = Observed, node_value = Scalar 5\<rparr>)]],
          idxs_by_chain = [[1], [0]], categorical = Some [0, 0]\<rparr> 0 =
   Inr ([(''z'', \<lparr>kind = Latent, node_value = Scalar 2\<rparr>)],
        \<lparr>num_chains = 2, log_weights = [0, 0],
          exec_traces = [[(''z'', \<lparr>kind = Latent, node_value = Scalar 1\<rparr>)],
                         [(''z'', \<lparr>kind = Latent, node_value = Scalar 2\<rparr>),
                          (''x'', \<lparr>kind = Observed, node_value = Scalar 5\<rparr>)]],
          idxs_by_chain = [[1], [0]], categorical = Some [0, 0]\<rparr>)"
proof -
  let ?t1 = "[(''z'', \<lparr>kind = Latent, node_value = Scalar 1\<rparr>)]"
  let ?t2 = "[(''z'', \<lparr>kind = Latent, node_value = Scalar 2\<rparr>),
              (''x'', \<lparr>kind = Observed, node_value = Scalar 5\<rparr>)]"
  let ?s = "\<lparr>num_chains = 2, log_weights = [0, 0], exec_traces = [?t1, ?t2],
             idxs_by_chain = [[1], [0]], categorical = Some [0, 0]\<rparr>"
  have r: "run (init 2) [Full ?t1 0 1, Full ?t2 0 0] = Inr ?s"
    by (simp add: run_def init_def reset_def py_slot_def numeral_2_eq_2)
  have g: "(0::nat) < length (log_weights ?s)" by simp
  from call_selects [OF r g] show ?thesis
    by (simp add: observation_nodes_def remove_node_def)
qed

text \<open>
  C1 as stated fails on a store whose chains have unequal lengths: after a run of
  a two-chain store over two values of chain 0, the index 1 (one of the two the resampler
  can return) is split into chain 1 and entry 0, the index list of chain 1 is empty, and
  the draw raises instead of returning a record.
\<close>

theorem call_unbalanced_counterexample:
  "run (init 2) [Full [] 0 0, Full [] 0 0] =
     Inr \<lparr>num_chains = 2, log_weights = [0, 0], exec_traces = [[], []],
          idxs_by_chain = [[0, 1], []], categorical = Some [0, 0]\<rparr> \<and>
   call \<lparr>num_chains = 2, log_weights = [0, 0], exec_traces = [[], []],
          idxs_by_chain = [[0, 1], []], categorical = Some [0, 0]\<rparr> 1 = Inl IndexError"
  by (simp add: run_def init_def reset_def py_slot_def numeral_2_eq_2 call_def getitem_def)

text \<open>
  C2. For a store left by a successful run, whose stored records are objects of a heap,
  and an index \<open>g\<close> drawn over its log-weights: whenever the draw returns a record, the
  record is a new object (no reference of the store points to it) whose contents are
  those of the selected stored record, the one at position \<open>chain_index[chain][within]\<close>,
  without its observation nodes. No name of an observation site of the stored record is
  left in it, it has no observation site, and its latent sites are those of the stored
  record with their nodes. Every object that existed before the draw, the stored records
  among them, is unchanged. Records are dictionaries: no name twice.
\<close>

theorem call_prunes_observations:
  assumes r: "run s0 vals = Inr s"
    and g: "g < length (log_weights s)"
    and refs: "map (\<lambda>a. h ! a) refs = exec_traces s"
    and valid: "\<forall>a \<in> set refs. a < length h"
    and wf: "\<forall>tr \<in> set (exec_traces s). wf_trace tr"
    and c: "call_obj s h refs g = Inr (t, h')"
  shows "\<exists>pos stored.
           g div nat (num_chains s) < length (idxs_by_chain s ! (g mod nat (num_chains s))) \<and>
           pos = idxs_by_chain s ! (g mod nat (num_chains s)) ! (g div nat (num_chains s)) \<and>
           pos < length refs \<and> stored = refs ! pos \<and>
           t = length h \<and> t \<notin> set refs \<and> length h' = Suc (length h) \<and>
           (\<forall>a < length h. h' ! a = h ! a) \<and>
           map (\<lambda>a. h' ! a) refs = exec_traces s \<and>
           h' ! t = filter (\<lambda>p. kind (snd p) \<noteq> Observed) (h ! stored) \<and>
           set (map fst (h' ! t)) \<inter> set (observation_nodes (h ! stored)) = {} \<and>
           observation_nodes (h' ! t) = [] \<and>
           stochastic_nodes (h' ! t) = stochastic_nodes (h ! stored) \<and>
           (\<forall>name \<in> set (stochastic_nodes (h ! stored)).
              map_of (h' ! t) name = map_of (h ! stored) name) \<and>
           call s g = Inr (h' ! t, s)"
proof -
  let ?n = "nat (num_chains s)"
  let ?pos = "idxs_by_chain s ! (g mod ?n) ! (g div ?n)"
  let ?stored = "refs ! ?pos"
  let ?new = "fold remove_node (observation_nodes (h ! ?stored)) (h ! ?stored)"
  have len: "length refs = length (exec_traces s)" using refs by (metis length_map)
  note eq = call_obj_ready [OF r g len, of h]
  have within: "g div ?n < length (idxs_by_chain s ! (g mod ?n))"
    using eq c by (auto split: if_splits)
  with eq c have t: "t = length h" and h': "h' = h @ [?new]" by simp_all
  have "?pos \<in> set (idxs_by_chain s ! (g mod ?n))" using within by simp
  moreover have "g mod ?n < length (idxs_by_chain s)"
  proof -
    have "length (log_weights s) = length vals" using r by (simp add: run_log_weights)
    with g obtain v where "v \<in> set vals" by (cases vals) auto
    then have "chain_of (nat (num_chains s0)) v \<noteq> None" using r run_defined by blast
    then have "0 < nat (num_chains s0)" by (auto dest: chain_of_less)
    then show ?thesis using r by (simp add: run_length_idxs run_num_chains)
  qed
  ultimately have "?pos < length (exec_traces s)"
    using r run_chain_bound by (simp add: run_exec_traces)
  then have pos: "?pos < length refs" using len by simp
  have content: "h ! ?stored = exec_traces s ! ?pos"
    using pos refs by (metis nth_map)
  then have "h ! ?stored \<in> set (exec_traces s)" using pos len by simp
  with wf have w: "wf_trace (h ! ?stored)" by blast
  have new: "h' ! t = ?new" using t h' by simp
  note p = pruned_trace [OF w new]
  have fresh: "t \<notin> set refs" using t valid by auto
  have old: "\<forall>a < length h. h' ! a = h ! a" using h' by (simp add: nth_append)
  have kept: "map (\<lambda>a. h' ! a) refs = exec_traces s"
  proof -
    have "map (\<lambda>a. h' ! a) refs = map (\<lambda>a. h ! a) refs"
      using valid old by (intro map_cong) auto
    then show ?thesis using refs by simp
  qed
  have v: "call s g = Inr (h' ! t, s)"
    using call_at_entry [OF r g within] new content by simp
  from within pos t fresh h' old kept p v show ?thesis by simp
qed

theorem call_prunes_observations_witness:
  "\<exists>t h'.
     call_obj \<lparr>num_chains = 2, log_weights = [0, 0],
                exec_traces = [[(''z'', \<lparr>kind = Latent, node_value = Scalar 1\<rparr>)],
                               [(''z'', \<lparr>kind = Latent, node_value = Scalar 2\<rparr>),
                                (''x'', \<lparr>kind = Observed, node_value = Scalar 5\<rparr>),
                                (''_RETURN'', \<lparr>kind = Auxiliary, node_value = Scalar 5\<rparr>)]],
                idxs_by_chain = [[1], [0]], categorical = Some [0, 0]\<rparr>
              [[(''z'', \<lparr>kind = Latent, node_value = Scalar 2\<rparr>),
                (''x'', \<lparr>kind = Observed, node_value = Scalar 5\<rparr>),
                (''_RETURN'', \<lparr>kind = Auxiliary, node_value = Scalar 5\<rparr>)],
               [(''z'', \<lparr>kind = Latent, node_value = Scalar 1\<rparr>)]]
              [1, 0] 0 = Inr (t, h') \<and>
     t = 2 \<and> length h' = 3 \<and>
     h' ! 0 = [(''z'', \<lparr>kind = Latent, node_value = Scalar 2\<rparr>),
               (''x'', \<lparr>kind = Observed, node_value = Scalar 5\<rparr>),
               (''_RETURN'', \<lparr>kind = Auxiliary, node_value = Scalar 5\<rparr>)] \<and>
     h' ! 1 = [(''z'', \<lparr>kind = Latent, node_value = Scalar 1\<rparr>)] \<and>
     h' ! t = [(''z'', \<lparr>kind = Latent, node_value = Scalar 2\<rparr>),
               (''_RETURN'', \<lparr>kind = Auxiliary, node_value = Scalar 5\<rparr>)] \<and>
     observation_nodes (h' ! t) = [] \<and> stochastic_nodes (h' ! t) = [''z'']"
proof -
  let ?t1 = "[(''z'', \<lparr>kind = Latent, node_value = Scalar 1\<rparr>)]"
  let ?t2 = "[(''z'', \<lparr>kind = Latent, node_value = Scalar 2\<rparr>),
              (''x'', \<lparr>kind = Observed, node_value = Scalar 5\<rparr>),
              (''_RETURN'', \<lparr>kind = Auxiliary, node_value = Scalar 5\<rparr>)]"
  let ?s = "\<lparr>num_chains = 2, log_weights = [0, 0], exec_traces = [?t1, ?t2],
             idxs_by_chain = [[1], [0]], categorical = Some [0, 0]\<rparr>"
  let ?h = "[?t2, ?t1]"
  have r: "run (init 2) [Full ?t1 0 1, Full ?t2 0 0] = Inr ?s"
    by (simp add: run_def init_def reset_def py_slot_def numeral_2_eq_2)
  have g: "(0::nat) < length (log_weights ?s)" by simp
  have refs: "map (\<lambda>a. ?h ! a) [1, 0] = exec_traces ?s" by simp
  have valid: "\<forall>a \<in> set [1, 0 :: nat]. a < length ?h" by simp
  have wf: "\<forall>tr \<in> set (exec_traces ?s). wf_trace tr" by (simp add: wf_trace_def)
  obtain t h' where c: "call_obj ?s ?h [1, 0] 0 = Inr (t, h')"
    by (simp add: call_obj_def getitem_def py_slot_def copy_obj_def)
  from call_prunes_observations [OF r g refs valid wf c]
  have t: "t = length ?h" and len: "length h' = Suc (length ?h)"
    and old: "\<forall>a < length ?h. h' ! a = ?h ! a"
    and new: "h' ! t = filter (\<lambda>p. kind (snd p) \<noteq> Observed)
        (?h ! ([1, 0] ! (idxs_by_chain ?s ! (0 mod nat (num_chains ?s)) ! (0 div nat (num_chains ?s)))))"
    and obs: "observation_nodes (h' ! t) = []"
    and sto: "stochastic_nodes (h' ! t) =
        stochastic_nodes (?h ! ([1, 0] ! (idxs_by_chain ?s ! (0 mod nat (num_chains ?s)) ! (0 div nat (num_chains ?s)))))"
    by blast+
  have t2: "t = 2" using t by simp
  have l3: "length h' = 3" using len by simp
  have h0: "h' ! 0 = ?t2" and h1: "h' ! 1 = ?t1" using old by simp_all
  have ht: "h' ! t = [(''z'', \<lparr>kind = Latent, node_value = Scalar 2\<rparr>),
               (''_RETURN'', \<lparr>kind = Auxiliary, node_value = Scalar 5\<rparr>)]"
    using new by simp
  have st: "stochastic_nodes (h' ! t) = [''z'']"
    using sto by (simp add: stochastic_nodes_def)
  from c t2 l3 h0 h1 ht obs st show ?thesis by blast
qed

text \<open>
  C3 (amended). When the generation procedure of a store with at least one chain is
  wrapped by \<open>sampler_default_args\<close> and the chain ids of the triples it yields lie in
  \<open>[0, num_chains)\<close>, the run succeeds and stores every value as a triple, at its position
  in the order yielded: a bare record with weight 1.0 under chain 0, a pair with its
  weight under chain 0, a triple with its weight under its chain.
\<close>

theorem run_sampler_default_args:
  assumes nc: "1 \<le> num_chains s"
    and ids: "\<forall>tr w c. Full tr w c \<in> set vals \<longrightarrow> 0 \<le> c \<and> c < num_chains s"
  shows "\<exists>s'. run s (sampler_default_args vals) = Inr s' \<and>
           length (exec_traces s') = length vals \<and>
           length (log_weights s') = length vals \<and>
           (\<forall>i < length vals.
              case vals ! i of
                Bare tr \<Rightarrow>
                  exec_traces s' ! i = tr \<and> log_weights s' ! i = 1 \<and> i \<in> set (idxs_by_chain s' ! 0)
              | Pair tr w \<Rightarrow>
                  exec_traces s' ! i = tr \<and> log_weights s' ! i = w \<and> i \<in> set (idxs_by_chain s' ! 0)
              | Full tr w c \<Rightarrow>
                  exec_traces s' ! i = tr \<and> log_weights s' ! i = w \<and>
                  i \<in> set (idxs_by_chain s' ! nat c))"
proof -
  let ?n = "nat (num_chains s)"
  let ?vals = "sampler_default_args vals"
  have ch: "chain_of ?n (default_args v) =
      Some (case v of Bare tr \<Rightarrow> 0 | Pair tr w \<Rightarrow> 0 | Full tr w c \<Rightarrow> nat c)"
    if "v \<in> set vals" for v
  proof (cases v)
    case (Full tr w c)
    with that ids have "0 \<le> c" "c < num_chains s" by blast+
    with Full show ?thesis by (simp add: py_slot_nonneg)
  qed (use nc in \<open>simp_all add: py_slot_nonneg\<close>)
  then have "\<forall>v \<in> set ?vals. chain_of ?n v \<noteq> None"
    by (auto simp: sampler_default_args_def)
  then obtain s' where r: "run s ?vals = Inr s'"
    using run_total by blast
  have et: "exec_traces s' = map trace_of vals"
    using r by (simp add: run_exec_traces sampler_default_args_def trace_of_default_args)
  have lw: "log_weights s' = map weight_of vals"
    using r by (simp add: run_log_weights sampler_default_args_def weight_of_default_args)
  have each: "case vals ! i of
                Bare tr \<Rightarrow>
                  exec_traces s' ! i = tr \<and> log_weights s' ! i = 1 \<and> i \<in> set (idxs_by_chain s' ! 0)
              | Pair tr w \<Rightarrow>
                  exec_traces s' ! i = tr \<and> log_weights s' ! i = w \<and> i \<in> set (idxs_by_chain s' ! 0)
              | Full tr w c \<Rightarrow>
                  exec_traces s' ! i = tr \<and> log_weights s' ! i = w \<and>
                  i \<in> set (idxs_by_chain s' ! nat c)"
    if i: "i < length vals" for i
  proof -
    have li: "i < length ?vals" using i by (simp add: sampler_default_args_def)
    have vi: "?vals ! i = default_args (vals ! i)" using i by (simp add: sampler_default_args_def)
    have "chain_of ?n (?vals ! i) =
        Some (case vals ! i of Bare tr \<Rightarrow> 0 | Pair tr w \<Rightarrow> 0 | Full tr w c \<Rightarrow> nat c)"
      unfolding vi using i by (intro ch) simp
    from run_mem_chain [OF r li this]
    have mem: "i \<in> set (idxs_by_chain s' !
        (case vals ! i of Bare tr \<Rightarrow> 0 | Pair tr w \<Rightarrow> 0 | Full tr w c \<Rightarrow> nat c))" .
    show ?thesis
      using mem i by (cases "vals ! i") (simp_all add: et lw)
  qed
  from r et lw each show ?thesis by auto
qed

theorem run_sampler_default_args_witness:
  "run (init 2) (sampler_default_args [Bare [], Pair [] (1/2), Full [] 3 1]) =
     Inr \<lparr>num_chains = 2, log_weights = [1, 1/2, 3], exec_traces = [[], [], []],
          idxs_by_chain = [[0, 1], [2]], categorical = Some [1, 1/2, 3]\<rparr>"
proof -
  have nc: "1 \<le> num_chains (init 2)" by (simp add: init_def reset_def)
  have ids: "\<forall>tr w c. Full tr w c \<in> set [Bare [], Pair [] (1/2), Full [] 3 1] \<longrightarrow>
      0 \<le> c \<and> c < num_chains (init 2)"
    by (simp add: init_def reset_def)
  from run_sampler_default_args [OF nc ids]
  obtain s' where "run (init 2) (sampler_default_args [Bare [], Pair [] (1/2), Full [] 3 1]) = Inr s'"
    by blast
  then show ?thesis
    by (simp add: sampler_default_args_def run_def init_def reset_def py_slot_def numeral_2_eq_2
        split: sum.splits)
qed

text \<open>
  C3 as stated fails: \<^verbatim>\<open>run\<close> itself normalizes nothing. It unpacks each value
  \<^verbatim>\<open>self._traces\<close> yields as a triple, so a pair or a bare record that reaches it from a
  procedure that is not wrapped ends the run with an exception.
\<close>

theorem run_unwrapped_counterexample:
  "run (init 1) [Pair [] (1/2)] = Inl ValueError \<and> run (init 1) [Bare []] = Inl UnpackError"
  by (simp add: run_def)

text \<open>
  C4 (amended). A yielded triple whose chain id \<open>c\<close> satisfies \<open>c \<ge> num_chains\<close> or
  \<open>c < - num_chains\<close>, after values that were accepted, ends the run with \<^verbatim>\<open>IndexError\<close>
  when it is ingested, whatever follows it. A negative chain id in \<open>[- num_chains, 0)\<close>
  does not: Python's list indexing counts it from the end, the run goes on, and the
  position of the value is filed under chain \<open>num_chains + c\<close>.
\<close>

theorem run_chain_id_check:
  assumes pre: "\<forall>v \<in> set pre. \<exists>tr w c. v = Full tr w c \<and> - num_chains s \<le> c \<and> c < num_chains s"
  shows "(c < - num_chains s \<or> num_chains s \<le> c \<longrightarrow>
            run s (pre @ Full tr w c # post) = Inl IndexError) \<and>
         (- num_chains s \<le> c \<and> c < 0 \<longrightarrow>
            (\<exists>s'. run s (pre @ [Full tr w c]) = Inr s' \<and>
                  exec_traces s' ! length pre = tr \<and>
                  length pre \<in> set (idxs_by_chain s' ! nat (num_chains s + c))))"
proof (intro conjI impI)
  let ?n = "nat (num_chains s)"
  have ok: "\<forall>v \<in> set pre. chain_of ?n v \<noteq> None"
    using pre by (auto simp: py_slot_def Let_def)
  {
    assume out: "c < - num_chains s \<or> num_chains s \<le> c"
    from ok obtain t where t: "run_loop (reset s) 0 pre = Inr t"
      using run_loop_total[of pre "reset s" 0] by (auto simp: reset_fields)
    then have "length (idxs_by_chain t) = ?n"
      by (auto dest: run_loop_fields simp: reset_fields)
    moreover have "py_slot ?n c = None"
      using out by (auto simp: py_slot_def Let_def)
    ultimately have "run_loop t (0 + length pre) (Full tr w c # post) = Inl IndexError"
      by (simp add: Let_def)
    then show "run s (pre @ Full tr w c # post) = Inl IndexError"
      by (simp add: run_def run_loop_append t)
  }
  {
    assume neg: "- num_chains s \<le> c \<and> c < 0"
    then have slot: "chain_of ?n (Full tr w c) = Some (nat (num_chains s + c))"
      by (auto simp: py_slot_def Let_def add.commute)
    with ok have "\<forall>v \<in> set (pre @ [Full tr w c]). chain_of ?n v \<noteq> None" by auto
    then obtain s' where r: "run s (pre @ [Full tr w c]) = Inr s'"
      using run_total by blast
    have "length pre \<in> set (idxs_by_chain s' ! nat (num_chains s + c))"
      using slot by (intro run_mem_chain [OF r]) simp_all
    moreover have "exec_traces s' ! length pre = tr"
      using r by (simp add: run_exec_traces nth_append)
    ultimately show "\<exists>s'. run s (pre @ [Full tr w c]) = Inr s' \<and>
                  exec_traces s' ! length pre = tr \<and>
                  length pre \<in> set (idxs_by_chain s' ! nat (num_chains s + c))"
      using r by blast
  }
qed

theorem run_chain_id_check_witness:
  "run (init 2) ([Full [] 0 0] @ Full [] 0 2 # [Full [] 0 1]) = Inl IndexError \<and>
   run (init 2) ([Full [] 0 0] @ Full [] 0 (- 3) # []) = Inl IndexError \<and>
   (\<exists>s'. run (init 2) ([Full [] 0 0] @ [Full [] 0 (- 2)]) = Inr s' \<and>
         length [Full [] 0 (0::int)] \<in> set (idxs_by_chain s' ! nat (num_chains (init 2) + (- 2))))"
proof -
  have pre: "\<forall>v \<in> set [Full [] 0 0]. \<exists>tr w c. v = Full tr w c \<and>
      - num_chains (init 2) \<le> c \<and> c < num_chains (init 2)"
    by (simp add: init_def reset_def)
  have nc: "num_chains (init 2) = 2" by (simp add: init_def reset_def)
  from run_chain_id_check [OF pre, of 2 "[]" 0 "[Full [] 0 1]"]
  have a: "run (init 2) ([Full [] 0 0] @ Full [] 0 2 # [Full [] 0 1]) = Inl IndexError"
    by (simp add: nc)
  from run_chain_id_check [OF pre, of "- 3" "[]" 0 "[]"]
  have b: "run (init 2) ([Full [] 0 0] @ Full [] 0 (- 3) # []) = Inl IndexError"
    by (simp add: nc)
  from run_chain_id_check [OF pre, of "- 2" "[]" 0 "[]"]
  have c: "\<exists>s'. run (init 2) ([Full [] 0 0] @ [Full [] 0 (- 2)]) = Inr s' \<and>
         length [Full [] 0 (0::int)] \<in> set (idxs_by_chain s' ! nat (num_chains (init 2) + (- 2)))"
    by (auto simp: nc)
  from a b c show ?thesis by blast
qed

text \<open>
  C4 as stated fails for a negative chain id: a two-chain store accepts the chain
  id \<open>-1\<close>, which lies outside \<open>[0, 2)\<close>, and files the value under chain 1.
\<close>

theorem run_negative_chain_id_counterexample:
  "run (init 2) [Full [] 0 (- 1)] =
     Inr \<lparr>num_chains = 2, log_weights = [0], exec_traces = [[]],
          idxs_by_chain = [[], [0]], categorical = Some [0]\<rparr>"
  by (simp add: run_def init_def reset_def py_slot_def numeral_2_eq_2)

text \<open>
  C5. For a store with more than one chain and a requested site whose marginal has
  weights that are not all equal (the largest differs from the smallest), diagnostics on
  that site raises the error for differently weighted samples and returns no result.
\<close>

theorem diagnostics_differently_weighted:
  assumes "1 < num_chains s"
    and "EmpiricalMarginal s (Some (Site site)) = Inr m"
    and "get_samples_and_weights m = Inr (marginal, weights)"
    and "Max (set weights) \<noteq> Min (set weights)"
  shows "diagnostics n_eff r_hat s (Some (site # rest)) = Inl DifferentlyWeighted"
proof -
  have "weights \<noteq> []"
    using assms(2,3) by (rule EmpiricalMarginal_weights_nonempty)
  then have "diagnostics_loop n_eff r_hat s Map.empty (site # rest) = Inl DifferentlyWeighted"
    using assms(2,3,4) by simp
  then show ?thesis
    using assms(1) by (simp add: diagnostics_def)
qed

theorem diagnostics_differently_weighted_witness:
  "diagnostics (\<lambda>t. ()) (\<lambda>t. ())
     \<lparr>num_chains = 2, log_weights = [0, - 1, - 2, - 3],
      exec_traces = [[(''z'', \<lparr>kind = Latent, node_value = Scalar 1\<rparr>)],
                     [(''z'', \<lparr>kind = Latent, node_value = Scalar 2\<rparr>)],
                     [(''z'', \<lparr>kind = Latent, node_value = Scalar 3\<rparr>)],
                     [(''z'', \<lparr>kind = Latent, node_value = Scalar 4\<rparr>)]],
      idxs_by_chain = [[0, 2], [1, 3]], categorical = Some [0, - 1, - 2, - 3]\<rparr>
     (Some [''z'']) = Inl DifferentlyWeighted"
proof -
  let ?s = "\<lparr>num_chains = 2, log_weights = [0, - 1, - 2, - 3],
      exec_traces = [[(''z'', \<lparr>kind = Latent, node_value = Scalar 1\<rparr>)],
                     [(''z'', \<lparr>kind = Latent, node_value = Scalar 2\<rparr>)],
                     [(''z'', \<lparr>kind = Latent, node_value = Scalar 3\<rparr>)],
                     [(''z'', \<lparr>kind = Latent, node_value = Scalar 4\<rparr>)]],
      idxs_by_chain = [[0, 2], [1, 3]], categorical = Some [0, - 1, - 2, - 3]\<rparr>"
  let ?m = "\<lparr>samples_buffer = [Scalar 1, Scalar 2, Scalar 3, Scalar 4],
             weights_buffer = [0, - 1, - 2, - 3]\<rparr>"
  have c: "1 < num_chains ?s" by simp
  have m: "EmpiricalMarginal ?s (Some (Site ''z'')) = Inr ?m"
    by (simp add: EmpiricalMarginal_def populate_traces_def empty_Empirical_def add_def site_value_def)
  have g: "get_samples_and_weights ?m =
      Inr (Tensor [Scalar 1, Scalar 2, Scalar 3, Scalar 4], [0, - 1, - 2, - 3])"
    by (simp add: get_samples_and_weights_def stack_def)
  have w: "Max (set [0, - 1, - 2, - 3 :: real]) \<noteq> Min (set [0, - 1, - 2, - 3])"
    by simp
  from diagnostics_differently_weighted [OF c m g w] show ?thesis .
qed

text \<open>
  C6 (amended). For a store with one chain, diagnostics called with the sites given
  returns the empty mapping, whatever the samples are and also when there are none, and
  does not raise. When the sites are omitted and the store holds no sample, the assertion
  that precedes the single-chain test fails.
\<close>

theorem diagnostics_single_chain:
  assumes "num_chains s = 1"
  shows "diagnostics n_eff r_hat s (Some sites) = Inr Map.empty \<and>
         (exec_traces s = [] \<longrightarrow> diagnostics n_eff r_hat s None = Inl AssertionError)"
  using assms by (simp add: diagnostics_def)

theorem diagnostics_single_chain_witness:
  "diagnostics (\<lambda>t. ()) (\<lambda>t. ())
     \<lparr>num_chains = 1, log_weights = [0, - 1],
      exec_traces = [[(''z'', \<lparr>kind = Latent, node_value = Scalar 1\<rparr>)],
                     [(''z'', \<lparr>kind = Latent, node_value = Scalar 2\<rparr>)]],
      idxs_by_chain = [[0, 1]], categorical = Some [0, - 1]\<rparr> (Some [''z'']) = Inr Map.empty \<and>
   diagnostics (\<lambda>t. ()) (\<lambda>t. ()) (init 1) (Some [''z'']) = Inr Map.empty \<and>
   diagnostics (\<lambda>t. ()) (\<lambda>t. ()) (init 1) None = Inl AssertionError"
proof -
  let ?s = "\<lparr>num_chains = 1, log_weights = [0, - 1],
      exec_traces = [[(''z'', \<lparr>kind = Latent, node_value = Scalar 1\<rparr>)],
                     [(''z'', \<lparr>kind = Latent, node_value = Scalar 2\<rparr>)]],
      idxs_by_chain = [[0, 1]], categorical = Some [0, - 1]\<rparr>"
  have a: "num_chains ?s = 1" by simp
  have b: "num_chains (init 1) = 1" by (simp add: init_def reset_def)
  have e: "exec_traces (init 1) = []" by (simp add: init_def reset_def)
  from diagnostics_single_chain [OF a, of "\<lambda>t. ()" "\<lambda>t. ()" "[''z'']"]
  have "diagnostics (\<lambda>t. ()) (\<lambda>t. ()) ?s (Some [''z'']) = Inr Map.empty" by simp
  moreover from diagnostics_single_chain [OF b, of "\<lambda>t. ()" "\<lambda>t. ()" "[''z'']"] e
  have "diagnostics (\<lambda>t. ()) (\<lambda>t. ()) (init 1) (Some [''z'']) = Inr Map.empty"
    and "diagnostics (\<lambda>t. ()) (\<lambda>t. ()) (init 1) None = Inl AssertionError"
    by simp_all
  ultimately show ?thesis by simp
qed

text \<open>
  C6 as stated fails on the store it names: a single-chain store whose run yielded
  nothing holds zero samples, and diagnostics without sites raises on it.
\<close>

theorem diagnostics_empty_store_counterexample:
  "run (init 1) [] =
     Inr \<lparr>num_chains = 1, log_weights = [], exec_traces = [], idxs_by_chain = [[]],
          categorical = Some []\<rparr> \<and>
   diagnostics (\<lambda>t. ()) (\<lambda>t. ())
     \<lparr>num_chains = 1, log_weights = [], exec_traces = [], idxs_by_chain = [[]],
      categorical = Some []\<rparr> None = Inl AssertionError"
  by (simp add: run_def init_def reset_def diagnostics_def)



text \<open>
  C8. When every value yielded is a triple whose chain id lies in \<open>[0, num_chains)\<close>, the
  run succeeds and stores one sample per value yielded; the lengths of the chains' index
  lists add up to the number of stored samples, and every position of the samples
  sequence is listed by exactly one chain, once.
\<close>

theorem run_chain_index_partition:
  assumes "\<forall>v \<in> set vals. \<exists>tr w c. v = Full tr w c \<and> 0 \<le> c \<and> c < num_chains s"
  shows "\<exists>s'. run s vals = Inr s' \<and>
           length (exec_traces s') = length vals \<and>
           sum_list (map length (idxs_by_chain s')) = length (exec_traces s') \<and>
           (\<forall>p < length (exec_traces s').
              \<exists>!c. c < length (idxs_by_chain s') \<and> p \<in> set (idxs_by_chain s' ! c)) \<and>
           (\<forall>c < length (idxs_by_chain s'). distinct (idxs_by_chain s' ! c))"
proof -
  have "\<forall>v \<in> set vals. chain_of (nat (num_chains s)) v \<noteq> None"
  proof
    fix v assume "v \<in> set vals"
    with assms obtain tr w c where "v = Full tr w c" "0 \<le> c" "c < num_chains s" by blast
    then show "chain_of (nat (num_chains s)) v \<noteq> None"
      by (simp add: py_slot_nonneg)
  qed
  then obtain s' where r: "run s vals = Inr s'"
    using run_total by blast
  have len: "length (exec_traces s') = length vals"
    using r by (simp add: run_exec_traces)
  have total: "sum_list (map length (idxs_by_chain s')) = length (exec_traces s')"
    using r len by (simp add: run_sum_lengths)
  have uniq: "\<forall>p < length (exec_traces s').
      \<exists>!c. c < length (idxs_by_chain s') \<and> p \<in> set (idxs_by_chain s' ! c)"
    using r len run_position_unique by simp
  have dist: "\<forall>c < length (idxs_by_chain s'). distinct (idxs_by_chain s' ! c)"
    using r run_chain_sorted sorted_wrt_less_distinct by blast
  from r len total uniq dist show ?thesis by blast
qed

theorem run_chain_index_partition_witness:
  "\<exists>s'. run (init 2) [Full [] 0 0, Full [] 0 1, Full [] 0 1] = Inr s' \<and>
     length (exec_traces s') = 3 \<and> sum_list (map length (idxs_by_chain s')) = 3"
  using run_chain_index_partition [of "[Full [] 0 0, Full [] 0 1, Full [] 0 1]" "init 2"]
  by (auto simp: init_def reset_def)





end
